theory Spec2Isabelle
  imports Main "HOL-Library.Word"
begin

section \<open>The tree model\<close>

text \<open>
  \<^verbatim>\<open>struct Node { int data; std::shared_ptr<Node> right; std::shared_ptr<Node> left; }\<close>

  A \<^verbatim>\<open>NodePtr\<close> is either \<^verbatim>\<open>nullptr\<close> or points to a node that owns its two children.
  The trees of the program are strict rooted trees (no sharing, no cycles), so a pointer
  together with everything reachable from it is a value of the datatype below: \<open>Null\<close> is
  \<^verbatim>\<open>nullptr\<close>, and \<open>Node d r l\<close> is a pointer to a node with \<^verbatim>\<open>data = d\<close>, \<^verbatim>\<open>right = r\<close> and
  \<^verbatim>\<open>left = l\<close>. The fields keep the order of the struct declaration: data, right, left.

  The payload is a C++ \<^verbatim>\<open>int\<close>, modelled as a 32-bit word whose \<open>+\<close> wraps around
  (two's complement). C++ leaves signed overflow undefined; the model takes the
  wrap-around that the machine addition gives, so a sum below is a sum modulo \<open>2 ^ 32\<close>.
\<close>

type_synonym cint = "32 word"

datatype tree = Null | Node cint tree tree

text \<open>
  Undefined behaviour of the source that a model must not hide: dereferencing a null
  pointer, and \<^verbatim>\<open>std::stack::top\<close> on an empty stack.
\<close>

datatype error = NullDereference | EmptyStackTop

text \<open>
  Every \<^verbatim>\<open>std::cout << x << " "\<close> of the source emits the integer \<open>x\<close>; the output of a
  call is the list of integers it emits, in order.
\<close>

section \<open>Depth-first traversals\<close>

subsection \<open>Recursive forms\<close>

fun inorderRecursive :: "tree \<Rightarrow> cint list" where
  "inorderRecursive Null = []"
| "inorderRecursive (Node d r l) = inorderRecursive l @ [d] @ inorderRecursive r"

fun preorderRecursive :: "tree \<Rightarrow> cint list" where
  "preorderRecursive Null = []"
| "preorderRecursive (Node d r l) = [d] @ preorderRecursive l @ preorderRecursive r"

text \<open>
  \<^verbatim>\<open>postorderRecursive\<close> calls \<^verbatim>\<open>inorderRecursive\<close> on both children (lines 130 and 132
  of the source), not itself.
\<close>

fun postorderRecursive :: "tree \<Rightarrow> cint list" where
  "postorderRecursive Null = []"
| "postorderRecursive (Node d r l) = inorderRecursive l @ inorderRecursive r @ [d]"

subsection \<open>Iterative forms\<close>

text \<open>
  A \<^verbatim>\<open>std::stack<NodePtr>\<close> is a list whose head is the top. One call of
  \<open>inorderIterative_loop\<close> is one test of the \<^verbatim>\<open>while\<close> condition followed by one run of
  the body; \<open>cur\<close> is the source's \<^verbatim>\<open>curr\<close> and \<open>tp\<close> the value of \<^verbatim>\<open>stack.top()\<close>. The
  branch taken when \<^verbatim>\<open>!curr\<close> holds pushes the null pointer and then reads \<^verbatim>\<open>curr->left\<close>
  through it; the other branch reads \<^verbatim>\<open>stack.top()\<close> without a test.
\<close>

function inorderIterative_loop :: "tree list \<Rightarrow> tree \<Rightarrow> cint list \<Rightarrow> error + cint list" where
  "inorderIterative_loop stack cur out =
     (if stack \<noteq> [] \<or> cur \<noteq> Null then
        (if cur = Null then Inl NullDereference
         else (case stack of
                 [] \<Rightarrow> Inl EmptyStackTop
               | tp # rest \<Rightarrow>
                   (case tp of
                      Null \<Rightarrow> Inl NullDereference
                    | Node d r l \<Rightarrow> inorderIterative_loop rest r (out @ [d]))))
      else Inr out)"
  by pat_completeness auto
termination
  by (relation "measure (\<lambda>(stack, cur, out). length stack)") auto

definition inorderIterative :: "tree \<Rightarrow> error + cint list" where
  "inorderIterative node = inorderIterative_loop [] node []"

text \<open>The weight of a stack: the number of nodes still reachable from it.\<close>

fun stack_nodes :: "tree list \<Rightarrow> nat" where
  "stack_nodes [] = 0"
| "stack_nodes (t # ts) = size t + stack_nodes ts"

text \<open>\<^verbatim>\<open>if (p) stack.push(p);\<close>\<close>

definition push_present :: "tree \<Rightarrow> tree list \<Rightarrow> tree list" where
  "push_present p stack = (if p \<noteq> Null then p # stack else stack)"

function preorderIterative_loop :: "tree list \<Rightarrow> cint list \<Rightarrow> error + cint list" where
  "preorderIterative_loop [] out = Inr out"
| "preorderIterative_loop (Null # rest) out = Inl NullDereference"
| "preorderIterative_loop (Node d r l # rest) out =
     preorderIterative_loop (push_present l (push_present r rest)) (out @ [d])"
  by pat_completeness auto
termination
  by (relation "measure (\<lambda>(stack, out). stack_nodes stack)") (auto simp: push_present_def)

fun preorderIterative :: "tree \<Rightarrow> error + cint list" where
  "preorderIterative Null = Inr []"
| "preorderIterative node = preorderIterative_loop [node] []"

text \<open>
  \<^verbatim>\<open>postorderIterative\<close> records the popped values on a second stack \<^verbatim>\<open>out\<close> and prints
  that stack from its top once the first one is empty.
\<close>

function postorderIterative_loop :: "tree list \<Rightarrow> cint list \<Rightarrow> error + cint list" where
  "postorderIterative_loop [] out = Inr out"
| "postorderIterative_loop (Null # rest) out = Inl NullDereference"
| "postorderIterative_loop (Node d r l # rest) out =
     postorderIterative_loop (push_present r (push_present l rest)) (d # out)"
  by pat_completeness auto
termination
  by (relation "measure (\<lambda>(stack, out). stack_nodes stack)") (auto simp: push_present_def)

fun print_stack :: "cint list \<Rightarrow> cint list \<Rightarrow> cint list" where
  "print_stack [] printed = printed"
| "print_stack (x # out) printed = print_stack out (printed @ [x])"

fun postorderIterative :: "tree \<Rightarrow> error + cint list" where
  "postorderIterative Null = Inr []"
| "postorderIterative node =
     (case postorderIterative_loop [node] [] of
        Inl e \<Rightarrow> Inl e
      | Inr out \<Rightarrow> Inr (print_stack out []))"

subsection \<open>The orders as the specification defines them\<close>

text \<open>
  Inorder is (left, self, right), preorder is (self, left, right), postorder is
  (left, right, self), each applied to the whole subtree.
\<close>

fun inorder_spec :: "tree \<Rightarrow> cint list" where
  "inorder_spec Null = []"
| "inorder_spec (Node d r l) = inorder_spec l @ [d] @ inorder_spec r"

fun preorder_spec :: "tree \<Rightarrow> cint list" where
  "preorder_spec Null = []"
| "preorder_spec (Node d r l) = [d] @ preorder_spec l @ preorder_spec r"

fun postorder_spec :: "tree \<Rightarrow> cint list" where
  "postorder_spec Null = []"
| "postorder_spec (Node d r l) = postorder_spec l @ postorder_spec r @ [d]"

text \<open>The tree that \<^verbatim>\<open>main\<close> builds.\<close>

definition sample_tree :: tree where
  "sample_tree =
     Node 1
       (Node 3 (Node 6 Null Null) (Node 5 (Node 8 Null Null) (Node 7 Null Null)))
       (Node 2 Null (Node 4 Null Null))"

section \<open>Structural equality\<close>

text \<open>
  \<^verbatim>\<open>isIdentical\<close> returns an \<^verbatim>\<open>int\<close>: 1 when both pointers are null, otherwise the
  conjunction converted to 0 or 1. \<^verbatim>\<open>&&\<close> tests a recursive result against 0.
\<close>

fun isIdentical :: "tree \<Rightarrow> tree \<Rightarrow> cint" where
  "isIdentical Null Null = 1"
| "isIdentical (Node a xr xl) (Node b yr yl) =
     (if a = b \<and> isIdentical xl yl \<noteq> 0 \<and> isIdentical xr yr \<noteq> 0 then 1 else 0)"
| "isIdentical x y = 0"

section \<open>Horizontal views\<close>

text \<open>
  \<^verbatim>\<open>std::map<int, std::pair<int, int>>\<close>: keys are horizontal distances, values are pairs
  (node value, level). The map is kept as the list of its entries in ascending key order,
  which is the order in which \<^verbatim>\<open>for (auto it: map)\<close> visits them. \<open>map_find\<close> is
  \<^verbatim>\<open>map.find\<close>, \<open>map_assign\<close> is \<^verbatim>\<open>map[k] = v\<close>, and \<open>map_index\<close> is the read \<^verbatim>\<open>map[k]\<close>,
  which inserts a value-initialised pair \<open>(0, 0)\<close> when the key is missing.

  Distances and levels are \<^verbatim>\<open>int\<close> counters that move by one per recursion level; they
  leave the 32-bit range only on a tree of height \<open>2 ^ 31\<close>, whose recursion the call stack
  cannot hold, and are modelled as unbounded integers.
\<close>

type_synonym vmap = "(int \<times> (cint \<times> int)) list"

fun map_find :: "vmap \<Rightarrow> int \<Rightarrow> (cint \<times> int) option" where
  "map_find [] k = None"
| "map_find ((k', v) # m) k = (if k = k' then Some v else map_find m k)"

fun map_assign :: "int \<Rightarrow> cint \<times> int \<Rightarrow> vmap \<Rightarrow> vmap" where
  "map_assign k v [] = [(k, v)]"
| "map_assign k v ((k', v') # m) =
     (if k < k' then (k, v) # (k', v') # m
      else if k = k' then (k, v) # m
      else (k', v') # map_assign k v m)"

definition map_index :: "vmap \<Rightarrow> int \<Rightarrow> (cint \<times> int) \<times> vmap" where
  "map_index m k =
     (case map_find m k of
        None \<Rightarrow> ((0, 0), map_assign k (0, 0) m)
      | Some v \<Rightarrow> (v, m))"

text \<open>
  The source overloads \<^verbatim>\<open>printBottom\<close> and \<^verbatim>\<open>printTop\<close>; the four-argument recursive
  helpers are \<open>printBottom_rec\<close> and \<open>printTop_rec\<close> here.
\<close>

fun printBottom_rec :: "tree \<Rightarrow> int \<Rightarrow> int \<Rightarrow> vmap \<Rightarrow> vmap" where
  "printBottom_rec Null dist level m = m"
| "printBottom_rec (Node d r l) dist level m =
     (let (entry, m1) = map_index m dist;
          m2 = (if level \<ge> snd entry then map_assign dist (d, level) m1 else m1);
          m3 = printBottom_rec l (dist - 1) (level + 1) m2
      in printBottom_rec r (dist + 1) (level + 1) m3)"

definition printBottom :: "tree \<Rightarrow> cint list" where
  "printBottom root = map (\<lambda>it. fst (snd it)) (printBottom_rec root 0 0 [])"

text \<open>
  In \<^verbatim>\<open>map.find(dist) == map.end() || level < map[dist].second\<close> the read \<^verbatim>\<open>map[dist]\<close>
  is evaluated only when the key was found.
\<close>

fun printTop_rec :: "tree \<Rightarrow> int \<Rightarrow> int \<Rightarrow> vmap \<Rightarrow> vmap" where
  "printTop_rec Null dist level m = m"
| "printTop_rec (Node d r l) dist level m =
     (let (c, m1) =
            (if map_find m dist = None then (True, m)
             else (let (entry, m') = map_index m dist in (level < snd entry, m')));
          m2 = (if c then map_assign dist (d, level) m1 else m1);
          m3 = printTop_rec l (dist - 1) (level + 1) m2
      in printTop_rec r (dist + 1) (level + 1) m3)"

definition printTop :: "tree \<Rightarrow> cint list" where
  "printTop root = map (\<lambda>it. fst (snd it)) (printTop_rec root 0 0 [])"

subsection \<open>The views as the specification defines them\<close>

text \<open>
  Every node gets a horizontal distance (root 0, left child one less, right child one
  more) and a level (root 0, child one more). \<open>placed_nodes\<close> lists the nodes in preorder
  as triples (distance, level, value).
\<close>

fun placed_nodes :: "tree \<Rightarrow> int \<Rightarrow> int \<Rightarrow> (int \<times> int \<times> cint) list" where
  "placed_nodes Null dist level = []"
| "placed_nodes (Node d r l) dist level =
     (dist, level, d) # placed_nodes l (dist - 1) (level + 1) @ placed_nodes r (dist + 1) (level + 1)"

definition at_distance :: "int \<Rightarrow> (int \<times> int \<times> cint) list \<Rightarrow> (int \<times> int \<times> cint) list" where
  "at_distance k ps = filter (\<lambda>p. fst p = k) ps"

definition distances :: "(int \<times> int \<times> cint) list \<Rightarrow> int list" where
  "distances ps = sort (remdups (map fst ps))"

text \<open>
  Of the nodes with the greatest level, the one visited last; of the nodes with the
  smallest level, the one visited first.
\<close>

definition deepest_last :: "(int \<times> int \<times> cint) list \<Rightarrow> cint" where
  "deepest_last ps =
     snd (snd (last (filter (\<lambda>p. fst (snd p) = Max (set (map (\<lambda>q. fst (snd q)) ps))) ps)))"

definition shallowest_first :: "(int \<times> int \<times> cint) list \<Rightarrow> cint" where
  "shallowest_first ps =
     snd (snd (hd (filter (\<lambda>p. fst (snd p) = Min (set (map (\<lambda>q. fst (snd q)) ps))) ps)))"

definition bottomView_spec :: "tree \<Rightarrow> cint list" where
  "bottomView_spec t =
     map (\<lambda>k. deepest_last (at_distance k (placed_nodes t 0 0))) (distances (placed_nodes t 0 0))"

definition topView_spec :: "tree \<Rightarrow> cint list" where
  "topView_spec t =
     map (\<lambda>k. shallowest_first (at_distance k (placed_nodes t 0 0))) (distances (placed_nodes t 0 0))"

section \<open>Postorder sum transform\<close>

text \<open>
  \<^verbatim>\<open>sumPostorder\<close> writes \<^verbatim>\<open>node->data\<close>; the model returns the integer result together
  with the tree as the call leaves it.
\<close>

fun sumPostorder :: "tree \<Rightarrow> cint \<times> tree" where
  "sumPostorder Null = (0, Null)"
| "sumPostorder (Node d r l) =
     (let (leftSum, l') = sumPostorder l;
          (rightSum, r') = sumPostorder r;
          prevData = d;
          d' = leftSum + rightSum
      in (d' + prevData, Node d' r' l'))"

text \<open>The sum of all values stored in a tree.\<close>

fun tree_sum :: "tree \<Rightarrow> cint" where
  "tree_sum Null = 0"
| "tree_sum (Node d r l) = d + tree_sum l + tree_sum r"

text \<open>The sum of the values stored in the nodes that have a child.\<close>

fun nonleaf_sum :: "tree \<Rightarrow> cint" where
  "nonleaf_sum Null = 0"
| "nonleaf_sum (Node d Null Null) = 0"
| "nonleaf_sum (Node d r l) = d + nonleaf_sum l + nonleaf_sum r"

text \<open>
  The transform as the specification words it, read on the tree after the call: every
  node holds the sum of the values that its children's subtrees hold after the rewrite.
\<close>

fun holds_rewritten_sums :: "tree \<Rightarrow> bool" where
  "holds_rewritten_sums Null = True"
| "holds_rewritten_sums (Node d r l) =
     (d = tree_sum l + tree_sum r \<and> holds_rewritten_sums l \<and> holds_rewritten_sums r)"

text \<open>
  The weaker reading: every node holds the sum of the values that its two children hold
  after the rewrite (0 for an absent child).
\<close>

fun root_value :: "tree \<Rightarrow> cint" where
  "root_value Null = 0"
| "root_value (Node d r l) = d"

fun holds_children_sums :: "tree \<Rightarrow> bool" where
  "holds_children_sums Null = True"
| "holds_children_sums (Node d r l) =
     (d = root_value l + root_value r \<and> holds_children_sums l \<and> holds_children_sums r)"

text \<open>
  The tree of the same shape in which every node holds the sum of the original values of
  its left and right subtrees.
\<close>

fun original_sums :: "tree \<Rightarrow> tree" where
  "original_sums Null = Null"
| "original_sums (Node d r l) = Node (tree_sum l + tree_sum r) (original_sums r) (original_sums l)"

section \<open>The tree as state\<close>
























section \<open>The views as folds over the placed nodes\<close>

text \<open>
  What one visit of \<^verbatim>\<open>printBottom\<close> and of \<^verbatim>\<open>printTop\<close> does to the map, as a function of
  the visited node's triple (distance, level, value). The recursive helpers are folds of
  these steps over \<open>placed_nodes\<close> (lemmas \<open>printBottom_rec_fold\<close> and
  \<open>printTop_rec_fold\<close> below).
\<close>

definition bottom_step :: "int \<times> int \<times> cint \<Rightarrow> vmap \<Rightarrow> vmap" where
  "bottom_step p m =
     (let (entry, m1) = map_index m (fst p)
      in if fst (snd p) \<ge> snd entry then map_assign (fst p) (snd (snd p), fst (snd p)) m1 else m1)"

definition top_step :: "int \<times> int \<times> cint \<Rightarrow> vmap \<Rightarrow> vmap" where
  "top_step p m =
     (let (c, m1) =
            (if map_find m (fst p) = None then (True, m)
             else (let (entry, m') = map_index m (fst p) in (fst (snd p) < snd entry, m')))
      in if c then map_assign (fst p) (snd (snd p), fst (snd p)) m1 else m1)"


section \<open>Traversals: proofs\<close>

lemma inorderRecursive_spec: "inorderRecursive t = inorder_spec t"
  by (induction t) simp_all

lemma preorderRecursive_spec: "preorderRecursive t = preorder_spec t"
  by (induction t) simp_all

lemma postorderRecursive_Node:
  "postorderRecursive (Node d r l) = inorder_spec l @ inorder_spec r @ [d]"
  by (simp add: inorderRecursive_spec)

lemma push_present_no_Null: "Null \<notin> set stack \<Longrightarrow> Null \<notin> set (push_present p stack)"
  by (simp add: push_present_def)

lemma preorder_push_present:
  "concat (map preorder_spec (push_present p stack)) =
   preorder_spec p @ concat (map preorder_spec stack)"
  by (simp add: push_present_def)

text \<open>
  The preorder loop, started on any stack that holds no null pointer, returns, and emits
  the preorder sequences of the stacked subtrees from the top down.
\<close>

lemma preorderIterative_loop_spec:
  "Null \<notin> set stack \<Longrightarrow>
   preorderIterative_loop stack out = Inr (out @ concat (map preorder_spec stack))"
proof (induction stack out rule: preorderIterative_loop.induct)
  case (1 out)
  show ?case by simp
next
  case (2 rest out)
  then show ?case by simp
next
  case (3 d r l rest out)
  from "3.prems" have "Null \<notin> set (push_present l (push_present r rest))"
    by (simp add: push_present_no_Null)
  then have "preorderIterative_loop (push_present l (push_present r rest)) (out @ [d]) =
      Inr ((out @ [d]) @ concat (map preorder_spec (push_present l (push_present r rest))))"
    by (rule "3.IH")
  then show ?case by (simp add: preorder_push_present)
qed

lemma preorderIterative_spec: "preorderIterative t = Inr (preorder_spec t)"
proof (cases t)
  case Null
  then show ?thesis by simp
next
  case (Node d r l)
  have "preorderIterative_loop [Node d r l] [] = Inr ([] @ concat (map preorder_spec [Node d r l]))"
    by (rule preorderIterative_loop_spec) simp
  with Node show ?thesis by simp
qed

text \<open>The two preorder forms agree on every tree.\<close>

lemma preorderIterative_is_recursive: "preorderIterative t = Inr (preorderRecursive t)"
  by (simp add: preorderIterative_spec preorderRecursive_spec)







subsection \<open>The recursive and the iterative forms on the tree of main\<close>

text \<open>
  Claim C1 (for every tree and every order, the recursive and the iterative form produce
  the same sequence) does not hold of the code. On the tree that \<^verbatim>\<open>main\<close> builds, the
  recursive inorder form emits eight values while the iterative one stops at its first
  step on a read of the empty stack, and the recursive postorder form emits a sequence
  that differs from the one the iterative form emits. The preorder forms agree on every
  tree (\<open>preorderIterative_is_recursive\<close>).
\<close>

theorem traversal_forms_on_sample_tree:
  "inorderRecursive sample_tree = [4, 2, 1, 7, 5, 8, 3, 6] \<and>
   inorderIterative sample_tree = Inl EmptyStackTop \<and>
   postorderRecursive sample_tree = [4, 2, 7, 5, 8, 3, 6, 1] \<and>
   postorderIterative sample_tree = Inr [4, 2, 7, 8, 5, 6, 3, 1] \<and>
   preorderRecursive sample_tree = [1, 2, 4, 3, 5, 7, 8, 6] \<and>
   preorderIterative sample_tree = Inr [1, 2, 4, 3, 5, 7, 8, 6]"
  by (simp add: sample_tree_def inorderIterative_def push_present_def)

text \<open>
  Claim C2 (no operation fails on a legal input; no null dereference and no read of an
  empty auxiliary stack) does not hold of the code: on a tree of one node,
  \<^verbatim>\<open>inorderIterative\<close> finds \<^verbatim>\<open>curr\<close> set and the stack empty, takes the branch that
  calls \<^verbatim>\<open>stack.top()\<close>, and reads the top of the empty stack. The empty tree is handled:
  the loop body does not run and nothing is emitted.
\<close>

theorem inorderIterative_reads_empty_stack:
  "inorderIterative (Node 1 Null Null) = Inl EmptyStackTop \<and> inorderIterative Null = Inr []"
  by (simp add: inorderIterative_def)

text \<open>
  Claim C3 (the recursive postorder form emits the postorder sequence: the whole
  postorder sequence of the left subtree, then that of the right subtree, then the node's
  own value) does not hold of the code: \<^verbatim>\<open>postorderRecursive\<close> emits the inorder sequences
  of the two subtrees before the node's value. On the tree of \<^verbatim>\<open>main\<close> the right subtree
  comes out as 7 5 8 3 6 where postorder is 7 8 5 6 3.
\<close>

theorem postorderRecursive_on_sample_tree:
  "postorderRecursive sample_tree = [4, 2, 7, 5, 8, 3, 6, 1] \<and>
   postorder_spec sample_tree = [4, 2, 7, 8, 5, 6, 3, 1]"
  by (simp add: sample_tree_def)

section \<open>Structural equality: proofs\<close>

lemma isIdentical_iff: "(isIdentical x y \<noteq> 0) = (x = y)"
  by (induction x y rule: isIdentical.induct) auto

lemma isIdentical_refl: "isIdentical t t = 1"
  by (induction t) simp_all

text \<open>
  The empty tree is a base case of every operation: an empty sequence, 1 (true), or 0.
\<close>

lemma empty_tree_base_cases:
  "inorderRecursive Null = [] \<and> preorderRecursive Null = [] \<and> postorderRecursive Null = [] \<and>
   inorderIterative Null = Inr [] \<and> preorderIterative Null = Inr [] \<and>
   postorderIterative Null = Inr [] \<and> isIdentical Null Null = 1 \<and>
   printBottom Null = [] \<and> printTop Null = [] \<and> sumPostorder Null = (0, Null)"
  by (simp add: inorderIterative_def printBottom_def printTop_def)

section \<open>Postorder sum transform: proofs\<close>

text \<open>
  A call returns the sum of the values its subtree held before the call and leaves in
  every node the sum of the values its two subtrees held before the call.
\<close>

lemma sumPostorder_eq: "sumPostorder t = (tree_sum t, original_sums t)"
  by (induction t) (simp_all add: ac_simps)

text \<open>
  Claim C4, as stated (every node is rewritten to the sum of the already-rewritten values
  of its children's subtrees), fails on the tree of \<^verbatim>\<open>main\<close>: the root becomes 35, while
  the values left in its two subtrees add up to 4 + 41 = 45 and the values left in its two
  children to 4 + 26 = 30.
\<close>

theorem sumPostorder_rewritten_sums_counterexample:
  "\<not> holds_rewritten_sums (snd (sumPostorder sample_tree)) \<and>
   \<not> holds_children_sums (snd (sumPostorder sample_tree))"
  by (simp add: sample_tree_def)

text \<open>
  Claim C4, amended: after \<^verbatim>\<open>sumPostorder\<close> the tree has the same shape, and every node
  holds the sum of the original values of all nodes of its left and right subtrees (0 for
  an absent child); in particular a leaf holds 0.
\<close>

theorem sumPostorder_tree:
  "snd (sumPostorder t) = original_sums t \<and>
   snd (sumPostorder (Node d Null Null)) = Node 0 Null Null"
  by (simp add: sumPostorder_eq)

theorem sumPostorder_tree_witness:
  "snd (sumPostorder sample_tree) =
     Node 35
       (Node 26 (Node 0 Null Null) (Node 15 (Node 0 Null Null) (Node 0 Null Null)))
       (Node 4 Null (Node 0 Null Null)) \<and>
   original_sums sample_tree = snd (sumPostorder sample_tree)"
  using sumPostorder_tree [of sample_tree 1] by (simp add: sample_tree_def)

text \<open>
  Claim C5, as stated (the returned integer is the sum of the original values plus the sum
  of the transformed non-leaf values, and is not the plain sum of the original values),
  fails on the tree of \<^verbatim>\<open>main\<close>: the call returns 36, the plain sum of 1 to 8, while the
  original values plus the transformed non-leaf values (35, 4, 26, 15) add up to 116.
\<close>

theorem sumPostorder_aggregate_counterexample:
  "fst (sumPostorder sample_tree) = 36 \<and>
   tree_sum sample_tree = 36 \<and>
   tree_sum sample_tree + nonleaf_sum (snd (sumPostorder sample_tree)) = 116 \<and>
   fst (sumPostorder sample_tree) \<noteq>
     tree_sum sample_tree + nonleaf_sum (snd (sumPostorder sample_tree))"
  by (simp add: sample_tree_def)

text \<open>
  Claim C5, amended: the returned integer is the new value of the root plus the original
  value of the root, where the new value of the root is the sum of the original values of
  its two subtrees; on the empty tree it is 0. No transformed value of another node enters
  the result.
\<close>

theorem sumPostorder_result_parts:
  "fst (sumPostorder Null) = 0 \<and>
   fst (sumPostorder (Node d r l)) = root_value (snd (sumPostorder (Node d r l))) + d \<and>
   root_value (snd (sumPostorder (Node d r l))) = tree_sum l + tree_sum r"
  by (simp add: sumPostorder_eq)

theorem sumPostorder_result_parts_witness:
  "fst (sumPostorder (Node 1 Null (Node 2 Null Null))) = 2 + 1 \<and>
   root_value (snd (sumPostorder (Node 1 Null (Node 2 Null Null)))) = 2"
  using sumPostorder_result_parts [of 1 Null "Node 2 Null Null"] by simp

text \<open>
  Claim C8, as stated (on every tree a second call returns a different integer than the
  first), fails on the tree whose root holds 0 and has one child holding 7: both calls
  return 7. It fails on the empty tree as well (0 both times).
\<close>

theorem sumPostorder_twice_counterexample:
  "fst (sumPostorder (Node 0 Null (Node 7 Null Null))) = 7 \<and>
   fst (sumPostorder (snd (sumPostorder (Node 0 Null (Node 7 Null Null))))) = 7 \<and>
   fst (sumPostorder (snd (sumPostorder Null))) = fst (sumPostorder Null)"
  by simp

text \<open>
  Claim C8, amended: a second call returns the sum of the values that the first call left
  in the tree; it differs from what the first call returned exactly when that sum differs
  from the sum of the original values, which is the case on every tree of one node with a
  value other than 0 (first \<open>v\<close>, then 0).
\<close>

theorem sumPostorder_twice:
  "fst (sumPostorder (snd (sumPostorder t))) = tree_sum (snd (sumPostorder t)) \<and>
   ((fst (sumPostorder (snd (sumPostorder t))) \<noteq> fst (sumPostorder t)) =
      (tree_sum (snd (sumPostorder t)) \<noteq> tree_sum t)) \<and>
   (v \<noteq> 0 \<longrightarrow>
      fst (sumPostorder (Node v Null Null)) = v \<and>
      fst (sumPostorder (snd (sumPostorder (Node v Null Null)))) = 0)"
  by (simp add: sumPostorder_eq)

theorem sumPostorder_twice_witness:
  "fst (sumPostorder sample_tree) = 36 \<and>
   fst (sumPostorder (snd (sumPostorder sample_tree))) = 80 \<and>
   fst (sumPostorder (Node 5 Null Null)) = 5 \<and>
   fst (sumPostorder (snd (sumPostorder (Node 5 Null Null)))) = 0"
  using sumPostorder_twice [of sample_tree 5] by (simp add: sample_tree_def)

text \<open>
  Claim C10: the integer returned by \<^verbatim>\<open>sumPostorder\<close> is the sum of the values the tree
  held before the call (in the program's \<^verbatim>\<open>int\<close> arithmetic).
\<close>

theorem sumPostorder_returns_original_sum: "fst (sumPostorder t) = tree_sum t"
  by (simp add: sumPostorder_eq)

theorem sumPostorder_returns_original_sum_witness:
  "fst (sumPostorder sample_tree) = 1 + 2 + 3 + 4 + 5 + 6 + 7 + 8"
  using sumPostorder_returns_original_sum [of sample_tree] by (simp add: sample_tree_def)

section \<open>Horizontal views: proofs\<close>

lemma printBottom_rec_fold:
  "printBottom_rec t dist level m = fold bottom_step (placed_nodes t dist level) m"
  by (induction t arbitrary: dist level m) (simp_all add: bottom_step_def split: prod.split)

lemma printTop_rec_fold:
  "printTop_rec t dist level m = fold top_step (placed_nodes t dist level) m"
  by (induction t arbitrary: dist level m) (simp_all add: top_step_def split: prod.split)

lemma map_find_map_of: "map_find m k = map_of m k"
  by (induction m) auto

lemma map_of_map_assign: "map_of (map_assign k v m) = (map_of m)(k \<mapsto> v)"
  by (induction m) (auto simp: fun_eq_iff)

lemma keys_map_assign: "fst ` set (map_assign k v m) = insert k (fst ` set m)"
  by (simp add: dom_map_of_conv_image_fst [symmetric] map_of_map_assign)

lemma sorted_map_assign:
  "sorted_wrt (<) (map fst m) \<Longrightarrow> sorted_wrt (<) (map fst (map_assign k v m))"
proof (induction m)
  case Nil
  show ?case by simp
next
  case (Cons a m)
  have "\<forall>x \<in> set (map fst (map_assign k v m)). fst a < x" if "fst a < k"
    using Cons.prems that by (auto simp: keys_map_assign)
  with Cons show ?case by (cases a) auto
qed

lemma map_of_bottom_step:
  "map_of (bottom_step (k', lv, d) m) k =
     (if k \<noteq> k' then map_of m k
      else (case map_of m k of
              None \<Rightarrow> if lv \<ge> 0 then Some (d, lv) else Some (0, 0)
            | Some e \<Rightarrow> if lv \<ge> snd e then Some (d, lv) else Some e))"
  by (auto simp: bottom_step_def map_index_def map_find_map_of map_of_map_assign split: option.split)

lemma keys_bottom_step:
  "fst ` set (bottom_step p m) = insert (fst p) (fst ` set m)"
proof -
  obtain k lv d where p: "p = (k, lv, d)" by (cases p) auto
  have "dom (map_of (bottom_step p m)) = insert (fst p) (dom (map_of m))"
    unfolding p by (auto simp: map_of_bottom_step dom_def split: option.splits if_splits)
  then show ?thesis by (simp add: dom_map_of_conv_image_fst)
qed

lemma sorted_bottom_step:
  "sorted_wrt (<) (map fst m) \<Longrightarrow> sorted_wrt (<) (map fst (bottom_step p m))"
  by (simp add: bottom_step_def map_index_def sorted_map_assign split: option.split)

lemma map_of_top_step:
  "map_of (top_step (k', lv, d) m) k =
     (if k \<noteq> k' then map_of m k
      else (case map_of m k of
              None \<Rightarrow> Some (d, lv)
            | Some e \<Rightarrow> if lv < snd e then Some (d, lv) else Some e))"
  by (auto simp: top_step_def map_index_def map_find_map_of map_of_map_assign split: option.split)

lemma keys_top_step:
  "fst ` set (top_step p m) = insert (fst p) (fst ` set m)"
proof -
  obtain k lv d where p: "p = (k, lv, d)" by (cases p) auto
  have "dom (map_of (top_step p m)) = insert (fst p) (dom (map_of m))"
    unfolding p by (auto simp: map_of_top_step dom_def split: option.splits if_splits)
  then show ?thesis by (simp add: dom_map_of_conv_image_fst)
qed

lemma sorted_top_step:
  "sorted_wrt (<) (map fst m) \<Longrightarrow> sorted_wrt (<) (map fst (top_step p m))"
  by (simp add: top_step_def map_index_def sorted_map_assign split: option.split)


lemma keys_fold_bottom: "fst ` set (fold bottom_step cs m) = fst ` set cs \<union> fst ` set m"
  by (induction cs arbitrary: m) (auto simp: keys_bottom_step)

lemma sorted_fold_bottom:
  "sorted_wrt (<) (map fst m) \<Longrightarrow> sorted_wrt (<) (map fst (fold bottom_step cs m))"
  by (induction cs arbitrary: m) (simp_all add: sorted_bottom_step)

lemma keys_fold_top: "fst ` set (fold top_step cs m) = fst ` set cs \<union> fst ` set m"
  by (induction cs arbitrary: m) (auto simp: keys_top_step)

lemma sorted_fold_top:
  "sorted_wrt (<) (map fst m) \<Longrightarrow> sorted_wrt (<) (map fst (fold top_step cs m))"
  by (induction cs arbitrary: m) (simp_all add: sorted_top_step)

lemma at_distance_snoc:
  "at_distance k (cs @ [(k', lv, d)]) =
     (if k' = k then at_distance k cs @ [(k', lv, d)] else at_distance k cs)"
  by (simp add: at_distance_def)

lemma Max_level_snoc:
  "es \<noteq> [] \<Longrightarrow>
   Max (set (map (\<lambda>q. fst (snd q)) (es @ [(k, lv, d)]))) =
     max lv (Max (set (map (\<lambda>q. fst (snd q)) es)))"
  by simp

lemma Min_level_snoc:
  "es \<noteq> [] \<Longrightarrow>
   Min (set (map (\<lambda>q. fst (snd q)) (es @ [(k, lv, d)]))) =
     min lv (Min (set (map (\<lambda>q. fst (snd q)) es)))"
  by simp

lemma deepest_last_single: "deepest_last [(k, lv, d)] = d"
  by (simp add: deepest_last_def)

lemma deepest_last_snoc:
  assumes "es \<noteq> []"
  shows "deepest_last (es @ [(k, lv, d)]) =
     (if Max (set (map (\<lambda>q. fst (snd q)) es)) \<le> lv then d else deepest_last es)"
proof -
  define M where "M = Max (set (map (\<lambda>q. fst (snd q)) es))"
  have new: "Max (set (map (\<lambda>q. fst (snd q)) (es @ [(k, lv, d)]))) = max lv M"
    unfolding M_def using assms by (rule Max_level_snoc)
  have "snd (snd (last (filter (\<lambda>p. fst (snd p) = max lv M) (es @ [(k, lv, d)])))) =
      (if M \<le> lv then d else snd (snd (last (filter (\<lambda>p. fst (snd p) = M) es))))"
    by (simp add: max_def)
  then show ?thesis
    unfolding deepest_last_def new M_def [symmetric] .
qed

lemma shallowest_first_single: "shallowest_first [(k, lv, d)] = d"
  by (simp add: shallowest_first_def)

lemma shallowest_first_snoc:
  assumes "es \<noteq> []"
  shows "shallowest_first (es @ [(k, lv, d)]) =
     (if lv < Min (set (map (\<lambda>q. fst (snd q)) es)) then d else shallowest_first es)"
proof -
  define M where "M = Min (set (map (\<lambda>q. fst (snd q)) es))"
  have new: "Min (set (map (\<lambda>q. fst (snd q)) (es @ [(k, lv, d)]))) = min lv M"
    unfolding M_def using assms by (rule Min_level_snoc)
  have least: "M \<le> fst (snd p)" if "p \<in> set es" for p
    unfolding M_def using that by (intro Min_le) simp_all
  have "M \<in> set (map (\<lambda>q. fst (snd q)) es)"
    unfolding M_def using assms by (intro Min_in) simp_all
  then have attained: "filter (\<lambda>p. fst (snd p) = M) es \<noteq> []"
    by (auto simp: filter_empty_conv)
  have "snd (snd (hd (filter (\<lambda>p. fst (snd p) = min lv M) (es @ [(k, lv, d)])))) =
      (if lv < M then d else snd (snd (hd (filter (\<lambda>p. fst (snd p) = M) es))))"
  proof (cases "lv < M")
    case True
    have "filter (\<lambda>p. fst (snd p) = lv) es = []"
      using least True by (fastforce simp: filter_empty_conv)
    with True show ?thesis by (simp add: min_def)
  next
    case False
    with attained show ?thesis by (simp add: min_def)
  qed
  then show ?thesis
    unfolding shallowest_first_def new M_def [symmetric] .
qed

lemma map_of_fold_bottom:
  assumes "\<forall>p \<in> set cs. 0 \<le> fst (snd p)"
  shows "map_of (fold bottom_step cs []) k =
     (if at_distance k cs = [] then None
      else Some (deepest_last (at_distance k cs),
                 Max (set (map (\<lambda>q. fst (snd q)) (at_distance k cs)))))"
  using assms
proof (induction cs rule: rev_induct)
  case Nil
  show ?case by (simp add: at_distance_def)
next
  case (snoc c cs)
  obtain k' lv d where c: "c = (k', lv, d)" by (cases c) auto
  from snoc.prems c have lv: "0 \<le> lv" by simp
  from snoc have IH: "map_of (fold bottom_step cs []) k =
     (if at_distance k cs = [] then None
      else Some (deepest_last (at_distance k cs),
                 Max (set (map (\<lambda>q. fst (snd q)) (at_distance k cs)))))"
    by simp
  show ?case
  proof (cases "k' = k")
    case False
    with IH show ?thesis by (simp add: c map_of_bottom_step at_distance_snoc)
  next
    case True
    show ?thesis
    proof (cases "at_distance k cs = []")
      case True
      with IH \<open>k' = k\<close> lv show ?thesis
        by (simp add: c map_of_bottom_step at_distance_snoc deepest_last_single)
    next
      case False
      define es where "es = at_distance k cs"
      define M where "M = Max (set (map (\<lambda>q. fst (snd q)) es))"
      from False have es: "es \<noteq> []" by (simp add: es_def)
      from IH False have before: "map_of (fold bottom_step cs []) k = Some (deepest_last es, M)"
        by (simp add: es_def M_def)
      have step: "map_of (fold bottom_step (cs @ [c]) []) k =
          (if M \<le> lv then Some (d, lv) else Some (deepest_last es, M))"
        using before \<open>k' = k\<close> by (simp add: c map_of_bottom_step)
      have at: "at_distance k (cs @ [c]) = es @ [(k, lv, d)]"
        using \<open>k' = k\<close> by (simp add: c at_distance_snoc es_def)
      have pick: "deepest_last (es @ [(k, lv, d)]) = (if M \<le> lv then d else deepest_last es)"
        unfolding M_def using es by (rule deepest_last_snoc)
      have top: "Max (set (map (\<lambda>q. fst (snd q)) (es @ [(k, lv, d)]))) = max lv M"
        unfolding M_def using es by (rule Max_level_snoc)
      show ?thesis
        unfolding step at pick top by (simp add: max_def)
    qed
  qed
qed

lemma map_of_fold_top:
  "map_of (fold top_step cs []) k =
     (if at_distance k cs = [] then None
      else Some (shallowest_first (at_distance k cs),
                 Min (set (map (\<lambda>q. fst (snd q)) (at_distance k cs)))))"
proof (induction cs rule: rev_induct)
  case Nil
  show ?case by (simp add: at_distance_def)
next
  case (snoc c cs)
  obtain k' lv d where c: "c = (k', lv, d)" by (cases c) auto
  note IH = snoc.IH
  show ?case
  proof (cases "k' = k")
    case False
    with IH show ?thesis by (simp add: c map_of_top_step at_distance_snoc)
  next
    case True
    show ?thesis
    proof (cases "at_distance k cs = []")
      case True
      with IH \<open>k' = k\<close> show ?thesis
        by (simp add: c map_of_top_step at_distance_snoc shallowest_first_single)
    next
      case False
      define es where "es = at_distance k cs"
      define M where "M = Min (set (map (\<lambda>q. fst (snd q)) es))"
      from False have es: "es \<noteq> []" by (simp add: es_def)
      from IH False have before: "map_of (fold top_step cs []) k = Some (shallowest_first es, M)"
        by (simp add: es_def M_def)
      have step: "map_of (fold top_step (cs @ [c]) []) k =
          (if lv < M then Some (d, lv) else Some (shallowest_first es, M))"
        using before \<open>k' = k\<close> by (simp add: c map_of_top_step)
      have at: "at_distance k (cs @ [c]) = es @ [(k, lv, d)]"
        using \<open>k' = k\<close> by (simp add: c at_distance_snoc es_def)
      have pick: "shallowest_first (es @ [(k, lv, d)]) = (if lv < M then d else shallowest_first es)"
        unfolding M_def using es by (rule shallowest_first_snoc)
      have bot: "Min (set (map (\<lambda>q. fst (snd q)) (es @ [(k, lv, d)]))) = min lv M"
        unfolding M_def using es by (rule Min_level_snoc)
      show ?thesis
        unfolding step at pick bot by (simp add: min_def)
    qed
  qed
qed


lemma placed_nodes_level: "p \<in> set (placed_nodes t dist level) \<Longrightarrow> level \<le> fst (snd p)"
proof (induction t arbitrary: dist level)
  case Null
  then show ?case by simp
next
  case (Node d r l)
  from Node.prems consider "p = (dist, level, d)"
    | "p \<in> set (placed_nodes l (dist - 1) (level + 1))"
    | "p \<in> set (placed_nodes r (dist + 1) (level + 1))"
    by auto
  then show ?case
  proof cases
    case 1
    then show ?thesis by simp
  next
    case 2
    then have "level + 1 \<le> fst (snd p)" by (rule Node.IH)
    then show ?thesis by simp
  next
    case 3
    then have "level + 1 \<le> fst (snd p)" by (rule Node.IH)
    then show ?thesis by simp
  qed
qed

lemma keys_are_distances:
  assumes "sorted_wrt (<) (map fst al)" and "fst ` set al = fst ` set cs"
  shows "map fst al = distances cs"
proof -
  from assms(1) have "sorted (map fst al)" and "distinct (map fst al)"
    by (simp_all add: strict_sorted_iff)
  then have "sorted_list_of_set (set (map fst al)) = map fst al"
    by (rule sorted_list_of_set.idem_if_sorted_distinct)
  moreover have "set (map fst al) = set (map fst cs)"
    using assms(2) by simp
  ultimately show ?thesis
    by (simp add: distances_def sorted_list_of_set_sort_remdups del: set_map)
qed

lemma view_by_keys:
  assumes "distinct (map fst al)"
    and "\<And>k. k \<in> fst ` set al \<Longrightarrow> map_of al k = Some (f k, g k)"
  shows "map (\<lambda>it. fst (snd it)) al = map f (map fst al)"
proof -
  have "fst (snd it) = f (fst it)" if "it \<in> set al" for it
  proof -
    from that have "(fst it, snd it) \<in> set al" by simp
    with assms(1) have "map_of al (fst it) = Some (snd it)" by (rule map_of_is_SomeI)
    moreover from that have "map_of al (fst it) = Some (f (fst it), g (fst it))"
      by (intro assms(2)) simp
    ultimately have "snd it = (f (fst it), g (fst it))" by simp
    then show ?thesis by simp
  qed
  then show ?thesis by simp
qed

lemma printBottom_eq_spec: "printBottom t = bottomView_spec t"
proof -
  define cs where "cs = placed_nodes t 0 0"
  define al where "al = fold bottom_step cs []"
  have levels: "\<forall>p \<in> set cs. 0 \<le> fst (snd p)"
    unfolding cs_def by (auto dest: placed_nodes_level)
  have sorted: "sorted_wrt (<) (map fst al)"
    unfolding al_def by (rule sorted_fold_bottom) simp
  have keys: "fst ` set al = fst ` set cs"
    unfolding al_def by (simp add: keys_fold_bottom)
  have entry: "map_of al k =
      Some (deepest_last (at_distance k cs), Max (set (map (\<lambda>q. fst (snd q)) (at_distance k cs))))"
    if "k \<in> fst ` set al" for k
  proof -
    from that keys have "at_distance k cs \<noteq> []"
      by (auto simp: at_distance_def filter_empty_conv)
    then show ?thesis
      unfolding al_def using map_of_fold_bottom [OF levels, of k] by simp
  qed
  from sorted have "distinct (map fst al)" by (simp add: strict_sorted_iff)
  then have "map (\<lambda>it. fst (snd it)) al = map (\<lambda>k. deepest_last (at_distance k cs)) (map fst al)"
    using entry by (rule view_by_keys)
  also have "map fst al = distances cs"
    using sorted keys by (rule keys_are_distances)
  finally show ?thesis
    by (simp add: printBottom_def bottomView_spec_def printBottom_rec_fold al_def cs_def)
qed


lemma printTop_eq_spec: "printTop t = topView_spec t"
proof -
  define cs where "cs = placed_nodes t 0 0"
  define al where "al = fold top_step cs []"
  have sorted: "sorted_wrt (<) (map fst al)"
    unfolding al_def by (rule sorted_fold_top) simp
  have keys: "fst ` set al = fst ` set cs"
    unfolding al_def by (simp add: keys_fold_top)
  have entry: "map_of al k =
      Some (shallowest_first (at_distance k cs), Min (set (map (\<lambda>q. fst (snd q)) (at_distance k cs))))"
    if "k \<in> fst ` set al" for k
  proof -
    from that keys have "at_distance k cs \<noteq> []"
      by (auto simp: at_distance_def filter_empty_conv)
    then show ?thesis
      unfolding al_def using map_of_fold_top [of cs k] by simp
  qed
  from sorted have "distinct (map fst al)" by (simp add: strict_sorted_iff)
  then have "map (\<lambda>it. fst (snd it)) al = map (\<lambda>k. shallowest_first (at_distance k cs)) (map fst al)"
    using entry by (rule view_by_keys)
  also have "map fst al = distances cs"
    using sorted keys by (rule keys_are_distances)
  finally show ?thesis
    by (simp add: printTop_def topView_spec_def printTop_rec_fold al_def cs_def)
qed

text \<open>What the visit of one node does to the entry at the node's distance.\<close>

lemma printBottom_rec_visit:
  "map_find (printBottom_rec (Node d Null Null) dist level m) dist =
     (case map_find m dist of
        None \<Rightarrow> if 0 \<le> level then Some (d, level) else Some (0, 0)
      | Some e \<Rightarrow> if snd e \<le> level then Some (d, level) else Some e)"
  using map_of_bottom_step [of dist level d m dist]
  by (simp add: printBottom_rec_fold map_find_map_of)

lemma printTop_rec_visit:
  "map_find (printTop_rec (Node d Null Null) dist level m) dist =
     (case map_find m dist of
        None \<Rightarrow> Some (d, level)
      | Some e \<Rightarrow> if level < snd e then Some (d, level) else Some e)"
  using map_of_top_step [of dist level d m dist]
  by (simp add: printTop_rec_fold map_find_map_of)

text \<open>
  Claim C6: \<^verbatim>\<open>printBottom\<close> emits, by ascending horizontal distance, the value of the node
  of greatest level at that distance, and of several such nodes the one that preorder
  visits last. The visit of a node overwrites the entry at its distance whenever the
  node's level is greater than or equal to the recorded level (a missing entry is first
  created with level 0).
\<close>

theorem printBottom_bottomView:
  "printBottom t = bottomView_spec t \<and>
   map_find (printBottom_rec (Node d Null Null) dist level m) dist =
     (case map_find m dist of
        None \<Rightarrow> if 0 \<le> level then Some (d, level) else Some (0, 0)
      | Some e \<Rightarrow> if snd e \<le> level then Some (d, level) else Some e)"
  by (simp only: printBottom_eq_spec printBottom_rec_visit)

theorem printBottom_bottomView_witness:
  "bottomView_spec sample_tree = [4, 7, 5, 8, 6] \<and>
   map_find (printBottom_rec (Node 9 Null Null) 0 2 [(0, (5, 2))]) 0 = Some (9, 2)"
  using printBottom_bottomView [of sample_tree 9 0 2 "[(0, (5, 2))]"]
  by (simp add: printBottom_def sample_tree_def map_index_def)

text \<open>
  Claim C7: \<^verbatim>\<open>printTop\<close> emits, by ascending horizontal distance, the value of the node of
  smallest level at that distance, and of several such nodes the one that preorder visits
  first. The visit of a node records it when its distance has no entry yet, replaces the
  entry when the node's level is strictly smaller than the recorded level, and leaves the
  entry alone otherwise.
\<close>

theorem printTop_topView:
  "printTop t = topView_spec t \<and>
   map_find (printTop_rec (Node d Null Null) dist level m) dist =
     (case map_find m dist of
        None \<Rightarrow> Some (d, level)
      | Some e \<Rightarrow> if level < snd e then Some (d, level) else Some e)"
  by (simp only: printTop_eq_spec printTop_rec_visit)

theorem printTop_topView_witness:
  "topView_spec sample_tree = [4, 2, 1, 3, 6] \<and>
   map_find (printTop_rec (Node 9 Null Null) 0 2 [(0, (5, 2))]) 0 = Some (5, 2)"
  using printTop_topView [of sample_tree 9 0 2 "[(0, (5, 2))]"]
  by (simp add: printTop_def sample_tree_def map_index_def)

section \<open>The tree as state: proofs\<close>






















end
